theory Spec2Isabelle
  imports Main "HOL-Library.Code_Target_Nat"
begin

section \<open>Range minimum queries and lowest common ancestors\<close>

text \<open>
  A shallow embedding of \<^verbatim>\<open>RMQ.hpp\<close>, \<^verbatim>\<open>algorithms.hpp\<close> and \<^verbatim>\<open>lca.hpp\<close>.

  \<^item> A random-access container is a list. An iterator into the input range
    \<open>[first, last)\<close> is the position it points at (\<open>first\<close> is \<open>0\<close>, \<open>last\<close> is the
    length), and dereferencing it reads the input sequence there.
  \<^item> A read outside a container, a dereference outside the range and a failed \<open>assert\<close>
    end the run: every operation returns an \<open>option\<close>, and \<open>None\<close> is that outcome.
  \<^item> Indices are unsigned in the source and natural numbers here. Every subtraction of
    the source but one is applied to operands already in order whenever it is reached,
    so truncation and wrap-around agree there. The exception is
    \<open>j - pow2(k) + 1\<close> in \<open>query_sparse_table\<close>, which passes through \<open>-1\<close> when
    \<open>i = 0\<close> and the range length is a power of two: it is written with the wrap-around
    at \<open>2 ^ 64\<close>. Sums and products stay far below \<open>2 ^ 64\<close> for any table that fits
    in memory and are not reduced.
\<close>

subsection \<open>Checked reads\<close>

definition nth_opt :: "'a list \<Rightarrow> nat \<Rightarrow> 'a option" where
  "nth_opt xs i = (if i < length xs then Some (xs ! i) else None)"

text \<open>A cell of a two-dimensional array, \<open>M[j][i]\<close>, read and written within its extents.\<close>

definition read2 :: "'a list list \<Rightarrow> nat \<Rightarrow> nat \<Rightarrow> 'a option" where
  "read2 M j i = (if j < length M \<and> i < length (M ! j) then Some (M ! j ! i) else None)"

definition write2 :: "'a list list \<Rightarrow> nat \<Rightarrow> nat \<Rightarrow> 'a \<Rightarrow> 'a list list option" where
  "write2 M j i v =
     (if j < length M \<and> i < length (M ! j) then Some (M[j := (M ! j)[i := v]]) else None)"

subsection \<open>Integer helpers\<close>

text \<open>
  Modelled from the spec: \<open>lower_log2\<close> and \<open>pow2\<close> of namespace \<open>general\<close> are called by
  \<^verbatim>\<open>RMQ.hpp\<close> but their definitions are not among the source files. The spec uses them as
  \<open>\<lfloor>log2 n\<rfloor>\<close> (levels run from 1 to \<open>\<lfloor>log2 n\<rfloor>\<close>, \<open>k = \<lfloor>log2 (j - i + 1)\<rfloor>\<close>) and
  \<open>2 ^ j\<close> (window length); the unit test of \<open>log2\<close> expects
  \<open>0, 1, 1, 6, 9, 13\<close> at \<open>1, 2, 3, 100, 1000, 10000\<close>.
\<close>

fun lower_log2 :: "nat \<Rightarrow> nat" where
  "lower_log2 n = (if n < 2 then 0 else Suc (lower_log2 (n div 2)))"

declare lower_log2.simps [simp del]

definition pow2 :: "nat \<Rightarrow> nat" where
  "pow2 j = 2 ^ j"

definition size_max :: nat where
  "size_max = 2 ^ 64"

subsection \<open>The flat sparse table of iterators (\<open>preprocess_sparse_table\<close>)\<close>

text \<open>
  The first loop: \<open>for (second = next(first); second != last; ++first, ++second)
  M.push_back(*first <= *second ? first : second)\<close>.
\<close>

function preprocess_level1 :: "'a::linorder list \<Rightarrow> nat \<Rightarrow> nat \<Rightarrow> nat list \<Rightarrow> nat list option" where
  "preprocess_level1 A first second M =
     (if second = length A then Some M
      else case (nth_opt A first, nth_opt A second) of
             (Some a, Some b) \<Rightarrow>
               preprocess_level1 A (Suc first) (Suc second) (M @ [if a \<le> b then first else second])
           | _ \<Rightarrow> None)"
  by pat_completeness auto
termination
  by (relation "measure (\<lambda>(A, first, second, M). length A - second)")
     (auto simp: nth_opt_def split: if_splits)

declare preprocess_level1.simps [simp del]

text \<open>
  The inner loop of a level: \<open>for (i = 0; i != last_pos; i++)\<close>, reading
  \<open>M[Mi]\<close> and \<open>M[Mi + block_length_2]\<close>, comparing what they point at and pushing the
  winner. The counter starts at \<open>0\<close> and \<open>last_pos\<close> is not below it; the branch
  \<open>last_pos < i\<close> is never taken from there.
\<close>

function preprocess_inner ::
  "'a::linorder list \<Rightarrow> nat \<Rightarrow> nat \<Rightarrow> nat \<Rightarrow> nat \<Rightarrow> nat list \<Rightarrow> nat list option" where
  "preprocess_inner A block_length_2 i last_pos Mi M =
     (if i = last_pos then Some M
      else if last_pos < i then None
      else case (nth_opt M Mi, nth_opt M (Mi + block_length_2)) of
             (Some M1, Some M2) \<Rightarrow>
               (case (nth_opt A M1, nth_opt A M2) of
                  (Some v1, Some v2) \<Rightarrow>
                    preprocess_inner A block_length_2 (Suc i) last_pos (Suc Mi)
                      (M @ [if v2 < v1 then M2 else M1])
                | _ \<Rightarrow> None)
           | _ \<Rightarrow> None)"
  by pat_completeness auto
termination
  by (relation "measure (\<lambda>(A, b, i, last_pos, Mi, M). last_pos - i)") auto

declare preprocess_inner.simps [simp del]

text \<open>
  The loop over the levels: \<open>for (j = 2; j <= lowerlogn; j++)\<close>. The counter is an
  \<open>unsigned char\<close> in the source; \<open>lowerlogn\<close> is below \<open>64\<close>, so it does not wrap.
\<close>

function preprocess_levels ::
  "'a::linorder list \<Rightarrow> nat \<Rightarrow> nat \<Rightarrow> nat \<Rightarrow> nat \<Rightarrow> nat list \<Rightarrow> nat list option" where
  "preprocess_levels A n lowerlogn j block_length_2 M =
     (if j \<le> lowerlogn then
        (let block_length = 2 * block_length_2;
             last_pos = n - block_length + 1;
             Mi = length M - (n - block_length_2 + 1)
         in case preprocess_inner A block_length_2 0 last_pos Mi M of
              None \<Rightarrow> None
            | Some M' \<Rightarrow> preprocess_levels A n lowerlogn (Suc j) block_length M')
      else Some M)"
  by pat_completeness auto
termination
  by (relation "measure (\<lambda>(A, n, lowerlogn, j, b, M). Suc lowerlogn - j)") auto

declare preprocess_levels.simps [simp del]

definition preprocess_sparse_table :: "'a::linorder list \<Rightarrow> nat list \<Rightarrow> nat list option" where
  "preprocess_sparse_table A M =
     (if length A \<noteq> 0 \<and> length A \<noteq> 1 \<and> length A \<noteq> 2 then
        (case preprocess_level1 A 0 1 M of
           None \<Rightarrow> None
         | Some M1 \<Rightarrow>
             (let n = length M1 + 1;
                  lowerlogn = lower_log2 n
              in preprocess_levels A n lowerlogn 2 2 M1))
      else Some M)"

subsection \<open>The two-dimensional sparse table of indices (\<open>index_preprocess_sparse_table\<close>)\<close>

text \<open>\<open>for (i = 0; i < A.size() - 1; i++) M[1][i] = A[i] <= A[i + 1] ? i : i + 1\<close>.\<close>

function index_level1 :: "'a::linorder list \<Rightarrow> nat \<Rightarrow> nat list list \<Rightarrow> nat list list option" where
  "index_level1 A i M =
     (if i < length A - 1 then
        (case write2 M 1 i (if A ! i \<le> A ! (i + 1) then i else i + 1) of
           None \<Rightarrow> None
         | Some M' \<Rightarrow> index_level1 A (Suc i) M')
      else Some M)"
  by pat_completeness auto
termination
  by (relation "measure (\<lambda>(A, i, M). length A - 1 - i)") auto

declare index_level1.simps [simp del]

text \<open>
  \<open>for (i = 0; i != last_pos; i++) M[j][i] = A[M2] < A[M1] ? M2 : M1\<close> with
  \<open>M1 = M[j - 1][i]\<close> and \<open>M2 = M[j - 1][i + prev_block_length]\<close>.
\<close>

function index_inner ::
  "'a::linorder list \<Rightarrow> nat \<Rightarrow> nat \<Rightarrow> nat \<Rightarrow> nat \<Rightarrow> nat list list \<Rightarrow> nat list list option" where
  "index_inner A j prev_block_length i last_pos M =
     (if i = last_pos then Some M
      else if last_pos < i then None
      else case (read2 M (j - 1) i, read2 M (j - 1) (i + prev_block_length)) of
             (Some M1, Some M2) \<Rightarrow>
               (case (nth_opt A M1, nth_opt A M2) of
                  (Some v1, Some v2) \<Rightarrow>
                    (case write2 M j i (if v2 < v1 then M2 else M1) of
                       None \<Rightarrow> None
                     | Some M' \<Rightarrow> index_inner A j prev_block_length (Suc i) last_pos M')
                | _ \<Rightarrow> None)
           | _ \<Rightarrow> None)"
  by pat_completeness auto
termination
  by (relation "measure (\<lambda>(A, j, p, i, last_pos, M). last_pos - i)") auto

declare index_inner.simps [simp del]

text \<open>
  The loop over the levels: \<open>for (j = 2; j <= lowerlogn; j++)\<close> with
  \<open>block_length = pow2(j)\<close>. \<open>prev_block_length\<close> is an \<open>unsigned int\<close> in the source and
  holds \<open>2 ^ (j - 1)\<close> for every level up to 32, that is for every sequence of fewer than
  \<open>2 ^ 33\<close> elements; it is not reduced here.
\<close>

function index_levels ::
  "'a::linorder list \<Rightarrow> nat \<Rightarrow> nat \<Rightarrow> nat \<Rightarrow> nat \<Rightarrow> nat list list \<Rightarrow> nat list list option" where
  "index_levels A n lowerlogn j prev_block_length M =
     (if j \<le> lowerlogn then
        (let block_length = pow2 j;
             last_pos = n - block_length + 1
         in case index_inner A j prev_block_length 0 last_pos M of
              None \<Rightarrow> None
            | Some M' \<Rightarrow> index_levels A n lowerlogn (Suc j) block_length M')
      else Some M)"
  by pat_completeness auto
termination
  by (relation "measure (\<lambda>(A, n, lowerlogn, j, p, M). Suc lowerlogn - j)") auto

declare index_levels.simps [simp del]

definition index_preprocess_sparse_table ::
  "'a::linorder list \<Rightarrow> nat list list \<Rightarrow> nat list list option" where
  "index_preprocess_sparse_table A M =
     (if length A > 2 then
        (case index_level1 A 0 M of
           None \<Rightarrow> None
         | Some M1 \<Rightarrow>
             (let n = length A;
                  lowerlogn = lower_log2 n
              in index_levels A n lowerlogn 2 2 M1))
      else Some M)"

subsection \<open>Queries\<close>

definition translate_sparse_table :: "nat \<Rightarrow> nat \<Rightarrow> nat \<Rightarrow> nat" where
  "translate_sparse_table i j n =
     (if j = 1 then i else ((j - 1) * n) - (pow2 j - j - 1) + i)"

text \<open>
  \<open>query_sparse_table(i, j, n, sparse_table)\<close>. The table holds iterators; \<open>A\<close> is the
  sequence they point into, which the source reaches by dereferencing them.
\<close>

definition query_sparse_table ::
  "'a::linorder list \<Rightarrow> nat \<Rightarrow> nat \<Rightarrow> nat \<Rightarrow> nat list \<Rightarrow> nat option" where
  "query_sparse_table A i j n sparse_table =
     (if \<not> i \<le> j then None
      else if \<not> j < n then None
      else if i = j then nth_opt sparse_table i
      else
        (let k = lower_log2 (j - i + 1);
             x = translate_sparse_table i k n;
             y = translate_sparse_table ((j + size_max - pow2 k + 1) mod size_max) k n
         in case (nth_opt sparse_table x, nth_opt sparse_table y) of
              (Some Mx, Some My) \<Rightarrow>
                (case (nth_opt A Mx, nth_opt A My) of
                   (Some vx, Some vy) \<Rightarrow> Some (if vy < vx then My else Mx)
                 | _ \<Rightarrow> None)
            | _ \<Rightarrow> None))"

text \<open>
  The two cells of the table that \<open>index_query_sparse_table\<close> reads for a range of more
  than one element: \<open>M[k][i]\<close> and \<open>M[k][i + (r - 2 * k)]\<close>.
\<close>

definition index_query_cells :: "nat \<Rightarrow> nat \<Rightarrow> (nat \<times> nat) \<times> (nat \<times> nat)" where
  "index_query_cells i j =
     (let r = j - i + 1;
          k = lower_log2 r
      in ((k, i), (k, i + (r - 2 * k))))"

definition index_query_sparse_table ::
  "nat \<Rightarrow> nat \<Rightarrow> 'a::linorder list \<Rightarrow> nat list list \<Rightarrow> nat option" where
  "index_query_sparse_table i j A M =
     (if \<not> i \<le> j then None
      else if i = j then Some i
      else
        (case index_query_cells i j of
           ((k, p), (k', q)) \<Rightarrow>
             (case (read2 M k p, read2 M k' q) of
                (Some x, Some y) \<Rightarrow>
                  (case (nth_opt A x, nth_opt A y) of
                     (Some Mx, Some My) \<Rightarrow> Some (if My < Mx then y else x)
                   | _ \<Rightarrow> None)
              | _ \<Rightarrow> None)))"

subsection \<open>First occurrences (\<open>representative_element\<close>)\<close>

text \<open>
  The input iterator \<open>first\<close> is a position in the sequence \<open>A\<close>; the output iterator
  is the list of the values written through it, in order; \<open>seen\<close> is the
  \<open>unordered_set\<close>. The counted overload \<open>(first, n, result)\<close>:
  \<open>for (i = 0; i < n; ++i) { if (unseen) { *result++ = i; insert } ++first; }\<close>.
\<close>

function representative_loop_n ::
  "'a list \<Rightarrow> nat \<Rightarrow> nat \<Rightarrow> nat \<Rightarrow> 'a set \<Rightarrow> nat list \<Rightarrow> nat list option" where
  "representative_loop_n A first i n seen result =
     (if i < n then
        (case nth_opt A first of
           None \<Rightarrow> None
         | Some x \<Rightarrow>
             if x \<notin> seen
             then representative_loop_n A (Suc first) (Suc i) n (insert x seen) (result @ [i])
             else representative_loop_n A (Suc first) (Suc i) n seen result)
      else Some result)"
  by pat_completeness auto
termination
  by (relation "measure (\<lambda>(A, first, i, n, seen, result). n - i)") auto

declare representative_loop_n.simps [simp del]

definition representative_element_n :: "'a list \<Rightarrow> nat \<Rightarrow> nat list \<Rightarrow> nat list option" where
  "representative_element_n A n result = representative_loop_n A 0 0 n {} result"

text \<open>
  The iterator-range overload \<open>(first, last, result)\<close>:
  \<open>for (n = 0; first != last; ++first, ++n) { if (unseen) { *result++ = n; insert }
  ++first; }\<close>. The iterator is advanced in the body and again in the loop header.
\<close>

function representative_loop ::
  "'a list \<Rightarrow> nat \<Rightarrow> nat \<Rightarrow> nat \<Rightarrow> 'a set \<Rightarrow> nat list \<Rightarrow> nat list option" where
  "representative_loop A first last' n seen result =
     (if first \<noteq> last' then
        (case nth_opt A first of
           None \<Rightarrow> None
         | Some x \<Rightarrow>
             if x \<notin> seen
             then representative_loop A (Suc (Suc first)) last' (Suc n) (insert x seen) (result @ [n])
             else representative_loop A (Suc (Suc first)) last' (Suc n) seen result)
      else Some result)"
  by pat_completeness auto
termination
  by (relation "measure (\<lambda>(A, first, last', n, seen, result). length A - first)")
     (auto simp: nth_opt_def split: if_splits)

declare representative_loop.simps [simp del]

definition representative_element :: "'a list \<Rightarrow> nat list \<Rightarrow> nat list option" where
  "representative_element A result = representative_loop A 0 (length A) 0 {} result"

subsection \<open>Lowest common ancestors (\<open>lca.hpp\<close>)\<close>

text \<open>
  Modelled from the spec: \<open>element_index\<close> of \<^verbatim>\<open>transformers.hpp\<close> is not among the
  source files. \<open>std::transform\<close> sends one pair (vertex, position) per tour entry to
  \<open>R\<close>, in order, and the comment in \<open>lca_preprocess\<close> and the spec (4.4) say that an
  insert does not replace: the first position of a vertex is the one kept.
\<close>

fun transform_element_index :: "'v list \<Rightarrow> nat \<Rightarrow> ('v \<rightharpoonup> nat) \<Rightarrow> ('v \<rightharpoonup> nat)" where
  "transform_element_index [] k R = R"
| "transform_element_index (v # vs) k R =
     transform_element_index vs (Suc k) (if R v = None then R(v \<mapsto> k) else R)"

text \<open>
  \<open>lca_preprocess\<close>. Two of the things it calls are not among the source files and are
  parameters of the model. The depth-first traversal with its two visitors
  (\<^verbatim>\<open>graph_visitors.hpp\<close>): what the two \<open>depth_first_search\<close> calls write through
  their \<open>back_inserter\<close> is \<open>eulerian_path\<close> for the vertices and \<open>vertex_depth\<close> for the
  depths. The table builder: the call is \<open>preprocess_sparse_table(L, M)\<close>, and the
  function of that name in \<^verbatim>\<open>RMQ.hpp\<close> takes three arguments \<open>(first, last, M)\<close>; what
  is called is the parameter \<open>preprocess\<close>.
\<close>

definition lca_preprocess ::
  "('g \<Rightarrow> 'v list) \<Rightarrow> ('g \<Rightarrow> nat list) \<Rightarrow> (nat list \<Rightarrow> 'm \<Rightarrow> 'm option) \<Rightarrow>
     'g \<Rightarrow> 'v list \<Rightarrow> nat list \<Rightarrow> ('v \<rightharpoonup> nat) \<Rightarrow> 'm
     \<Rightarrow> ('v list \<times> nat list \<times> ('v \<rightharpoonup> nat) \<times> 'm) option" where
  "lca_preprocess eulerian_path vertex_depth preprocess T E L R M =
     (let E' = E @ eulerian_path T;
          L' = L @ vertex_depth T;
          R' = transform_element_index E' 0 R
      in case preprocess L' M of
           None \<Rightarrow> None
         | Some M' \<Rightarrow> Some (E', L', R', M'))"

text \<open>
  \<open>lca_query\<close>. The call is \<open>general::query_sparse_table(i, j, L, M)\<close> and its result
  indexes \<open>E\<close>. The function of that name in \<^verbatim>\<open>RMQ.hpp\<close> takes an unsigned integer
  \<open>n\<close> where the call passes the container \<open>L\<close>, and returns an element of the table;
  what is called is the parameter \<open>query\<close>. A vertex without an entry in \<open>R\<close> ends the
  run.
\<close>

definition lca_query ::
  "(nat \<Rightarrow> nat \<Rightarrow> nat list \<Rightarrow> 'm \<Rightarrow> nat option) \<Rightarrow>
     'v \<Rightarrow> 'v \<Rightarrow> 'v list \<Rightarrow> nat list \<Rightarrow> ('v \<rightharpoonup> nat) \<Rightarrow> 'm \<Rightarrow> 'v option" where
  "lca_query query u v E L R M =
     (case (R u, R v) of
        (Some i0, Some j0) \<Rightarrow>
          (let (i, j) = (if j0 < i0 then (j0, i0) else (i0, j0))
           in case query i j L M of
                None \<Rightarrow> None
              | Some minimum \<Rightarrow> nth_opt E minimum)
      | _ \<Rightarrow> None)"

text \<open>
  The functions of \<^verbatim>\<open>RMQ.hpp\<close> that have the argument lists of the two calls are
  \<open>index_preprocess_sparse_table(A, M)\<close> and \<open>index_query_sparse_table(i, j, A, M)\<close>. They
  work on the two-dimensional array that both functions of \<^verbatim>\<open>lca.hpp\<close> require \<open>M\<close> to
  be (\<open>MutableMultiArrayConcept\<close>, \<open>ConstMultiArrayConcept\<close> of dimension 2), and the
  query returns an index, as \<open>E[minimum]\<close> needs. The properties of \<open>lca_preprocess\<close> and
  \<open>lca_query\<close> below are stated with these two in the place of the parameters.
\<close>

text \<open>
  Modelled from the spec: the Euler tour of a rooted tree and its depths (3, 4.3), the
  output the spec requires of the traversal. The vertex is recorded when it is entered
  and again after each child's subtree; the root has depth \<open>0\<close>.
\<close>

datatype 'v tree = Node 'v "'v tree list"

fun euler_tour :: "'v tree \<Rightarrow> 'v list" where
  "euler_tour (Node v ts) = v # concat (map (\<lambda>t. euler_tour t @ [v]) ts)"

fun euler_depth :: "nat \<Rightarrow> 'v tree \<Rightarrow> nat list" where
  "euler_depth d (Node v ts) = d # concat (map (\<lambda>t. euler_depth (Suc d) t @ [d]) ts)"

text \<open>
  Modelled from the spec: the lowest common ancestor (glossary), the deepest vertex that
  is an ancestor of both. \<open>path_to\<close> is the path from the root to a vertex (empty when the
  vertex is not in the tree); the lowest common ancestor is the last vertex that the two
  paths share.
\<close>

fun path_to :: "'v tree \<Rightarrow> 'v \<Rightarrow> 'v list"
  and path_in :: "'v tree list \<Rightarrow> 'v \<Rightarrow> 'v list" where
  "path_to (Node x ts) v = (if x = v then [x] else (case path_in ts v of [] \<Rightarrow> [] | p \<Rightarrow> x # p))"
| "path_in [] v = []"
| "path_in (t # ts) v = (case path_to t v of [] \<Rightarrow> path_in ts v | p \<Rightarrow> p)"

fun common_prefix :: "'a list \<Rightarrow> 'a list \<Rightarrow> 'a list" where
  "common_prefix (x # xs) (y # ys) = (if x = y then x # common_prefix xs ys else [])"
| "common_prefix xs ys = []"

definition lowest_common_ancestor :: "'v tree \<Rightarrow> 'v \<Rightarrow> 'v \<Rightarrow> 'v option" where
  "lowest_common_ancestor T u v =
     (case common_prefix (path_to T u) (path_to T v) of [] \<Rightarrow> None | p \<Rightarrow> Some (last p))"

text \<open>The tree of the spec's scenario (8): edges \<open>0\<rightarrow>1, 0\<rightarrow>2, 1\<rightarrow>3, 1\<rightarrow>4\<close>, root \<open>0\<close>.\<close>

definition scenario_tree :: "nat tree" where
  "scenario_tree = Node 0 [Node 1 [Node 3 [], Node 4 []], Node 2 []]"

text \<open>
  A deeper tree: the path \<open>0\<rightarrow>1\<rightarrow>2\<close>, below \<open>2\<close> the path \<open>3\<rightarrow>4\<rightarrow>5\<rightarrow>6\<close> and the leaf \<open>7\<close>.
\<close>

definition branch_tree :: "nat tree" where
  "branch_tree =
     Node 0 [Node 1 [Node 2 [Node 3 [Node 4 [Node 5 [Node 6 []]]], Node 7 []]]]"

subsection \<open>What a table entry has to be\<close>

text \<open>
  \<open>k\<close> is the leftmost minimum of \<open>A[lo .. hi]\<close>: it lies in the window, nothing in the
  window is smaller, and everything to its left in the window is strictly larger.
\<close>

definition is_leftmost_min :: "'a::linorder list \<Rightarrow> nat \<Rightarrow> nat \<Rightarrow> nat \<Rightarrow> bool" where
  "is_leftmost_min A lo hi k \<longleftrightarrow>
     lo \<le> k \<and> k \<le> hi \<and> (\<forall>m\<in>{lo..hi}. A ! k \<le> A ! m) \<and> (\<forall>m\<in>{lo..<k}. A ! k < A ! m)"

text \<open>
  The position at which level \<open>j\<close> starts in the flat table: the sizes
  \<open>n - 2 ^ l + 1\<close> of the levels \<open>l < j\<close> appended before it.
\<close>

definition level_start :: "nat \<Rightarrow> nat \<Rightarrow> nat" where
  "level_start n j = (\<Sum>l = 1..<j. n + 1 - 2 ^ l)"

subsection \<open>Auxiliary notions for the proofs\<close>

text \<open>The entry that a level's inner loop pushes for the pair at \<open>t\<close> and \<open>t + b\<close>.\<close>

definition pick :: "'a::linorder list \<Rightarrow> nat list \<Rightarrow> nat \<Rightarrow> nat \<Rightarrow> nat" where
  "pick A M b t = (if A ! (M ! (t + b)) < A ! (M ! t) then M ! (t + b) else M ! t)"

text \<open>
  The flat table holds the levels below \<open>j\<close>: it has their total length, every entry
  is an iterator into \<open>A\<close>, and the entry of each window is its leftmost minimum.
\<close>

definition flat_levels_built :: "'a::linorder list \<Rightarrow> nat \<Rightarrow> nat list \<Rightarrow> bool" where
  "flat_levels_built A j M \<longleftrightarrow>
     length M = level_start (length A) j \<and> (\<forall>x\<in>set M. x < length A) \<and>
     (\<forall>l i. 1 \<le> l \<and> l < j \<and> i + 2 ^ l \<le> length A \<longrightarrow>
        is_leftmost_min A i (i + 2 ^ l - 1) (M ! (level_start (length A) l + i)))"

text \<open>The two-dimensional table holds the levels below \<open>j\<close>.\<close>

definition index_levels_built :: "'a::linorder list \<Rightarrow> nat \<Rightarrow> nat list list \<Rightarrow> bool" where
  "index_levels_built A j M \<longleftrightarrow>
     (\<forall>l i. 1 \<le> l \<and> l < j \<and> i + 2 ^ l \<le> length A \<longrightarrow>
        is_leftmost_min A i (i + 2 ^ l - 1) (M ! l ! i))"

section \<open>Properties\<close>

subsection \<open>Leftmost minima and logarithms\<close>


lemma is_leftmost_min_pair:
  "is_leftmost_min A i (Suc i) (if A ! i \<le> A ! Suc i then i else Suc i)"
  by (auto simp: is_leftmost_min_def le_Suc_eq less_Suc_eq)

lemma is_leftmost_min_join:
  assumes "is_leftmost_min A a b x" "is_leftmost_min A (Suc b) c y"
  shows "is_leftmost_min A a c (if A ! y < A ! x then y else x)"
proof (cases "A ! y < A ! x")
  case True
  have "A ! y \<le> A ! m" if "m \<in> {a..c}" for m
  proof (cases "m \<le> b")
    case True
    with that assms(1) have "A ! x \<le> A ! m" by (auto simp: is_leftmost_min_def)
    with \<open>A ! y < A ! x\<close> show ?thesis by simp
  next
    case False
    with that assms(2) show ?thesis by (auto simp: is_leftmost_min_def)
  qed
  moreover have "A ! y < A ! m" if "m \<in> {a..<y}" for m
  proof (cases "m \<le> b")
    case True
    with that assms(1) have "A ! x \<le> A ! m" by (auto simp: is_leftmost_min_def)
    with \<open>A ! y < A ! x\<close> show ?thesis by simp
  next
    case False
    with that assms(2) show ?thesis by (auto simp: is_leftmost_min_def)
  qed
  moreover from assms have "a \<le> y" "y \<le> c" by (auto simp: is_leftmost_min_def)
  ultimately show ?thesis using True by (simp add: is_leftmost_min_def)
next
  case False
  then have le: "A ! x \<le> A ! y" by simp
  have "A ! x \<le> A ! m" if "m \<in> {a..c}" for m
  proof (cases "m \<le> b")
    case True
    with that assms(1) show ?thesis by (auto simp: is_leftmost_min_def)
  next
    case False
    with that assms(2) have "A ! y \<le> A ! m" by (auto simp: is_leftmost_min_def)
    with le show ?thesis by simp
  qed
  moreover have "A ! x < A ! m" if "m \<in> {a..<x}" for m
    using that assms(1) by (auto simp: is_leftmost_min_def)
  moreover from assms have "a \<le> x" "x \<le> c" by (auto simp: is_leftmost_min_def)
  ultimately show ?thesis using False by (simp add: is_leftmost_min_def)
qed

lemma lower_log2_le: "0 < n \<Longrightarrow> 2 ^ lower_log2 n \<le> n"
proof (induction n rule: lower_log2.induct)
  case (1 n)
  show ?case
  proof (cases "n < 2")
    case True
    with 1 show ?thesis by (simp add: lower_log2.simps)
  next
    case False
    then have "0 < n div 2" by simp
    with 1 False have "2 ^ lower_log2 (n div 2) \<le> n div 2" by simp
    then have "2 * 2 ^ lower_log2 (n div 2) \<le> n" by simp
    with False show ?thesis by (subst lower_log2.simps) simp
  qed
qed

lemma lower_log2_gt: "n < 2 ^ Suc (lower_log2 n)"
proof (induction n rule: lower_log2.induct)
  case (1 n)
  show ?case
  proof (cases "n < 2")
    case True
    then show ?thesis by (simp add: lower_log2.simps)
  next
    case False
    with 1 have "n div 2 < 2 ^ Suc (lower_log2 (n div 2))" by simp
    then have "n < 2 * 2 ^ Suc (lower_log2 (n div 2))" by simp
    with False show ?thesis by (subst lower_log2.simps) simp
  qed
qed

subsection \<open>The flat builder\<close>

lemma preprocess_level1_eq:
  assumes "second = Suc first" "second \<le> length A"
  shows "preprocess_level1 A first second M =
         Some (M @ map (\<lambda>p. if A ! p \<le> A ! Suc p then p else Suc p) [first..<length A - 1])"
  using assms
proof (induction "length A - second" arbitrary: first second M)
  case 0
  then have "second = length A" by simp
  with 0 show ?case by (simp add: preprocess_level1.simps)
next
  case (Suc d)
  then have lt: "second < length A" "first < length A - 1" "first < length A" by auto
  have "preprocess_level1 A first second M =
        preprocess_level1 A (Suc first) (Suc second)
          (M @ [if A ! first \<le> A ! second then first else second])"
    using lt by (subst preprocess_level1.simps) (simp add: nth_opt_def)
  also have "\<dots> = Some ((M @ [if A ! first \<le> A ! second then first else second]) @
       map (\<lambda>p. if A ! p \<le> A ! Suc p then p else Suc p) [Suc first..<length A - 1])"
    using Suc lt by (intro Suc.hyps(1)) auto
  finally show ?case using lt Suc.prems(1) by (simp add: upt_conv_Cons)
qed

lemma preprocess_inner_eq:
  assumes "i \<le> last_pos" "Mi + (last_pos - i) + b \<le> length M" "\<forall>x\<in>set M. x < length A"
  shows "preprocess_inner A b i last_pos Mi M =
         Some (M @ map (pick A M b) [Mi..<Mi + (last_pos - i)])"
  using assms
proof (induction "last_pos - i" arbitrary: i Mi M)
  case 0
  then show ?case by (simp add: preprocess_inner.simps)
next
  case (Suc d)
  let ?v = "pick A M b Mi"
  let ?M = "M @ [?v]"
  from Suc have lt: "i < last_pos" "Mi < length M" "Mi + b < length M" by auto
  with Suc.prems(3) have val: "M ! Mi < length A" "M ! (Mi + b) < length A" by auto
  have step: "preprocess_inner A b i last_pos Mi M = preprocess_inner A b (Suc i) last_pos (Suc Mi) ?M"
    using lt val by (subst preprocess_inner.simps) (simp add: nth_opt_def pick_def)
  have "?v \<in> set M" using lt by (auto simp: pick_def)
  with Suc.prems(3) have valM: "\<forall>x\<in>set ?M. x < length A" by auto
  have "preprocess_inner A b (Suc i) last_pos (Suc Mi) ?M =
        Some (?M @ map (pick A ?M b) [Suc Mi..<Suc Mi + (last_pos - Suc i)])"
    using Suc lt valM by (intro Suc.hyps(1)) auto
  moreover have "map (pick A ?M b) [Suc Mi..<Suc Mi + (last_pos - Suc i)] =
                 map (pick A M b) [Suc Mi..<Suc Mi + (last_pos - Suc i)]"
    using Suc.prems(2) lt by (intro map_cong) (auto simp: pick_def nth_append)
  moreover have "[Mi..<Mi + (last_pos - i)] = Mi # [Suc Mi..<Suc Mi + (last_pos - Suc i)]"
    using lt by (simp add: upt_conv_Cons Suc_diff_Suc)
  ultimately show ?case using step by simp
qed

lemma level_start_1 [simp]: "level_start n (Suc 0) = 0"
  by (simp add: level_start_def)

lemma level_start_Suc: "0 < j \<Longrightarrow> level_start n (Suc j) = level_start n j + (n + 1 - 2 ^ j)"
  by (simp add: level_start_def)

lemma level_start_mono: "j \<le> j' \<Longrightarrow> level_start n j \<le> level_start n j'"
  unfolding level_start_def by (intro sum_mono2) auto

lemma level_start_closed:
  assumes "0 < j" "2 ^ (j - 1) \<le> n + 1"
  shows "level_start n j + 2 ^ j = (j - 1) * n + j + 1"
  using assms
proof (induction j)
  case 0
  then show ?case by simp
next
  case (Suc j)
  show ?case
  proof (cases "j = 0")
    case True
    then show ?thesis by simp
  next
    case False
    then have j: "0 < j" by simp
    from Suc.prems have le: "(2::nat) ^ j \<le> n + 1" by simp
    have "(2::nat) ^ (j - 1) \<le> 2 ^ j" by (intro power_increasing) auto
    from this le have "(2::nat) ^ (j - 1) \<le> n + 1" by (rule order_trans)
    with Suc.IH j have IH: "level_start n j + 2 ^ j = (j - 1) * n + j + 1" by simp
    have "level_start n (Suc j) + 2 ^ Suc j = (level_start n j + 2 ^ j) + ((n + 1 - 2 ^ j) + 2 ^ j)"
      using j by (simp add: level_start_Suc)
    also have "\<dots> = ((j - 1) * n + j + 1) + (n + 1)" using IH le by simp
    also have "\<dots> = (Suc j - 1) * n + Suc j + 1" using j by (cases j) simp_all
    finally show ?thesis .
  qed
qed

lemma translate_level_start:
  assumes "0 < j" "2 ^ j \<le> n"
  shows "translate_sparse_table i j n = level_start n j + i"
proof (cases "j = 1")
  case True
  then show ?thesis by (simp add: translate_sparse_table_def)
next
  case False
  have "(2::nat) ^ (j - 1) \<le> 2 ^ j" by (intro power_increasing) auto
  also have "\<dots> \<le> n + 1" using assms by simp
  finally have "(2::nat) ^ (j - 1) \<le> n + 1" .
  with assms have eq: "level_start n j + 2 ^ j = (j - 1) * n + j + 1"
    by (intro level_start_closed)
  have "j < 2 ^ j" by (rule less_exp)
  with eq have "(j - 1) * n - (2 ^ j - j - 1) = level_start n j" by linarith
  with False show ?thesis by (simp add: translate_sparse_table_def pow2_def)
qed

lemma flat_level1_built:
  assumes "2 \<le> length A"
  shows "flat_levels_built A 2 (map (\<lambda>p. if A ! p \<le> A ! Suc p then p else Suc p) [0..<length A - 1])"
proof -
  have "level_start (length A) 2 = length A - 1"
    using assms by (simp add: level_start_def numeral_2_eq_2)
  moreover have "is_leftmost_min A i (i + 2 ^ l - 1)
      (map (\<lambda>p. if A ! p \<le> A ! Suc p then p else Suc p) [0..<length A - 1] ! (level_start (length A) l + i))"
    if "1 \<le> l \<and> l < 2 \<and> i + 2 ^ l \<le> length A" for l i
  proof -
    from that have l: "l = 1" by simp
    with that have "i + 2 \<le> length A" by simp
    then have "i < length A - 1" by simp
    then have "map (\<lambda>p. if A ! p \<le> A ! Suc p then p else Suc p) [0..<length A - 1] ! i =
               (if A ! i \<le> A ! Suc i then i else Suc i)"
      by simp
    with l show ?thesis using is_leftmost_min_pair [of A i] by simp
  qed
  ultimately show ?thesis
    using assms unfolding flat_levels_built_def by auto
qed

lemma nth_append_map_upt:
  "i < k \<Longrightarrow> (M @ map f [a..<a + k]) ! (length M + i) = f (a + i)"
  by (simp add: nth_append)

lemma flat_level_step:
  assumes "2 \<le> j" "2 ^ j \<le> length A" "b = 2 ^ (j - 1)" "flat_levels_built A j M"
  shows "\<exists>M'. preprocess_inner A b 0 (length A - 2 * b + 1) (length M - (length A - b + 1)) M = Some M'
          \<and> flat_levels_built A (Suc j) M'"
proof -
  let ?n = "length A"
  let ?Mi = "level_start ?n (j - 1)"
  let ?last = "?n - 2 * b + 1"
  from assms(1) obtain j' where j': "j = Suc j'" "0 < j'" by (cases j) auto
  have b2: "2 * b = 2 ^ j" using assms(3) j' by simp
  have bpos: "0 < b" using assms(3) by simp
  have ble: "2 * b \<le> ?n" using b2 assms(2) by simp
  from assms(4) have len: "length M = level_start ?n j"
    and val: "\<forall>x\<in>set M. x < ?n"
    and inv: "\<And>l i. 1 \<le> l \<Longrightarrow> l < j \<Longrightarrow> i + 2 ^ l \<le> ?n \<Longrightarrow>
        is_leftmost_min A i (i + 2 ^ l - 1) (M ! (level_start ?n l + i))"
    unfolding flat_levels_built_def by auto
  have startj: "level_start ?n j = ?Mi + (?n + 1 - b)"
    using j' assms(3) by (simp add: level_start_Suc)
  have Mi: "length M - (?n - b + 1) = ?Mi"
    using len startj ble by simp
  have bound: "?Mi + (?last - 0) + b \<le> length M"
    using len startj ble by simp
  have run: "preprocess_inner A b 0 ?last ?Mi M = Some (M @ map (pick A M b) [?Mi..<?Mi + (?last - 0)])"
    using bound val by (intro preprocess_inner_eq) auto
  let ?M' = "M @ map (pick A M b) [?Mi..<?Mi + ?last]"
  have "level_start ?n (Suc j) = level_start ?n j + (?n + 1 - 2 * b)"
    using assms(1) b2 by (simp add: level_start_Suc)
  moreover have "?n - 2 * b + 1 = ?n + 1 - 2 * b" using ble by simp
  moreover have "length ?M' = length M + (?n - 2 * b + 1)" by simp
  ultimately have len': "length ?M' = level_start ?n (Suc j)"
    using len by (simp only:)
  have val': "\<forall>x\<in>set ?M'. x < ?n"
  proof -
    have "pick A M b t \<in> set M" if "t < ?Mi + ?last" for t
      using that bound by (auto simp: pick_def)
    with val show ?thesis by auto
  qed
  have inv': "is_leftmost_min A i (i + 2 ^ l - 1) (?M' ! (level_start ?n l + i))"
    if l: "1 \<le> l" "l < Suc j" and i: "i + 2 ^ l \<le> ?n" for l i
  proof (cases "l < j")
    case True
    have "level_start ?n l + i < level_start ?n (Suc l)"
      using l i by (simp add: level_start_Suc)
    also have "\<dots> \<le> level_start ?n j" using True by (intro level_start_mono) simp
    finally have "level_start ?n l + i < length M" using len by simp
    then have "?M' ! (level_start ?n l + i) = M ! (level_start ?n l + i)"
      by (simp add: nth_append)
    with inv [OF l(1) True i] show ?thesis by simp
  next
    case False
    with l have lj: "l = j" by simp
    with i b2 have ib: "i + 2 * b \<le> ?n" by simp
    then have ilast: "i < ?last" by simp
    define x where "x = M ! (?Mi + i)"
    define y where "y = M ! (?Mi + (i + b))"
    have "?M' ! (length M + i) = pick A M b (?Mi + i)"
      using ilast by (rule nth_append_map_upt)
    then have e: "?M' ! (level_start ?n l + i) = (if A ! y < A ! x then y else x)"
      using lj len by (simp only: pick_def x_def y_def add.assoc)
    have "is_leftmost_min A i (i + 2 ^ (j - 1) - 1) (M ! (?Mi + i))"
      using j' ib assms(3) by (intro inv) auto
    then have lx: "is_leftmost_min A i (i + b - 1) x"
      by (simp only: x_def assms(3))
    have "is_leftmost_min A (i + b) (i + b + 2 ^ (j - 1) - 1) (M ! (?Mi + (i + b)))"
      using j' ib assms(3) by (intro inv) auto
    moreover have "Suc (i + b - 1) = i + b" using bpos by simp
    moreover have "i + b + 2 ^ (j - 1) - 1 = i + 2 ^ l - 1" using lj b2 assms(3) by simp
    ultimately have ly: "is_leftmost_min A (Suc (i + b - 1)) (i + 2 ^ l - 1) y"
      by (simp only: y_def)
    from is_leftmost_min_join [OF lx ly] show ?thesis by (simp only: e)
  qed
  show ?thesis
    using run Mi len' val' inv' unfolding flat_levels_built_def by auto
qed

lemma preprocess_levels_built:
  assumes "2 \<le> j" "j \<le> Suc lowerlogn" "2 ^ lowerlogn \<le> length A" "b = 2 ^ (j - 1)"
    "flat_levels_built A j M"
  shows "\<exists>M'. preprocess_levels A (length A) lowerlogn j b M = Some M' \<and>
           flat_levels_built A (Suc lowerlogn) M'"
  using assms
proof (induction "Suc lowerlogn - j" arbitrary: j b M)
  case 0
  then have "j = Suc lowerlogn" by simp
  with 0 show ?case by (subst preprocess_levels.simps) simp
next
  case (Suc d)
  then have jle: "j \<le> lowerlogn" by simp
  then have "(2::nat) ^ j \<le> 2 ^ lowerlogn" by (intro power_increasing) auto
  from this Suc.prems(3) have pj: "2 ^ j \<le> length A" by (rule order_trans)
  from flat_level_step [OF Suc.prems(1) pj Suc.prems(4) Suc.prems(5)]
  obtain M1 where M1: "preprocess_inner A b 0 (length A - 2 * b + 1) (length M - (length A - b + 1)) M = Some M1"
    "flat_levels_built A (Suc j) M1" by blast
  have "2 * b = 2 ^ (Suc j - 1)" using Suc.prems(1,4) by (cases j) auto
  with Suc M1(2) jle
  have "\<exists>M'. preprocess_levels A (length A) lowerlogn (Suc j) (2 * b) M1 = Some M' \<and>
           flat_levels_built A (Suc lowerlogn) M'"
    by (intro Suc.hyps(1)) auto
  then show ?case using jle M1(1) by (subst preprocess_levels.simps) (simp add: Let_def)
qed

lemma preprocess_sparse_table_built:
  assumes "3 \<le> length A"
  shows "\<exists>M'. preprocess_sparse_table A [] = Some M' \<and>
           flat_levels_built A (Suc (lower_log2 (length A))) M'"
proof -
  let ?M1 = "map (\<lambda>p. if A ! p \<le> A ! Suc p then p else Suc p) [0..<length A - 1]"
  have l1: "preprocess_level1 A 0 1 [] = Some ?M1"
    using assms preprocess_level1_eq [of 1 0 A "[]"] by simp
  have n: "length ?M1 + 1 = length A" using assms by simp
  have built: "flat_levels_built A 2 ?M1" using assms by (intro flat_level1_built) simp
  have "2 \<le> length A div 2 * 2" using assms by simp
  have lg: "1 \<le> lower_log2 (length A)"
    using assms by (subst lower_log2.simps) simp
  have "\<exists>M'. preprocess_levels A (length A) (lower_log2 (length A)) 2 2 ?M1 = Some M' \<and>
           flat_levels_built A (Suc (lower_log2 (length A))) M'"
    using assms lg built by (intro preprocess_levels_built lower_log2_le) auto
  moreover have "length A \<noteq> 0 \<and> length A \<noteq> 1 \<and> length A \<noteq> 2" using assms by auto
  ultimately show ?thesis
    using l1 n by (simp add: preprocess_sparse_table_def Let_def)
qed

subsection \<open>The two-dimensional builder\<close>

lemma write2_Some:
  "j < length M \<Longrightarrow> i < length (M ! j) \<Longrightarrow> write2 M j i v = Some (M[j := (M ! j)[i := v]])"
  by (simp add: write2_def)

lemma update_shape:
  "j < length M \<Longrightarrow> map length (M[j := (M ! j)[i := v]]) = map length M"
  by (simp add: map_update list_update_same_conv)

lemma update_nth:
  "j < length M \<Longrightarrow> i < length (M ! j) \<Longrightarrow>
   M[j := (M ! j)[i := v]] ! l ! p = (if l = j \<and> p = i then v else M ! l ! p)"
  by (cases "l = j") (auto simp: nth_list_update)

lemma shape_length: "map length M' = map length M \<Longrightarrow> length M' = length M"
  by (rule map_eq_imp_length_eq)

lemma shape_row: "map length M' = map length M \<Longrightarrow> l < length M \<Longrightarrow> length (M' ! l) = length (M ! l)"
  by (metis length_map nth_map)

lemma index_level1_spec:
  assumes "1 < length M" "length A - 1 \<le> length (M ! 1)"
  shows "\<exists>M'. index_level1 A i M = Some M' \<and> map length M' = map length M \<and>
           (\<forall>l p. M' ! l ! p =
              (if l = 1 \<and> i \<le> p \<and> p < length A - 1
               then (if A ! p \<le> A ! Suc p then p else Suc p) else M ! l ! p))"
  using assms
proof (induction "length A - 1 - i" arbitrary: i M)
  case 0
  then have "\<not> i < length A - 1" by simp
  then show ?case by (subst index_level1.simps) auto
next
  case (Suc d)
  then have lt: "i < length A - 1" by simp
  let ?v = "if A ! i \<le> A ! (i + 1) then i else i + 1"
  let ?M1 = "M[1 := (M ! 1)[i := ?v]]"
  have il: "i < length (M ! 1)" using lt Suc.prems(2) by simp
  have w: "write2 M 1 i ?v = Some ?M1"
    using Suc.prems(1) il by (rule write2_Some)
  have sh: "map length ?M1 = map length M"
    using Suc.prems(1) by (rule update_shape)
  have "1 < length ?M1" using Suc.prems(1) by simp
  moreover have "length A - 1 \<le> length (?M1 ! 1)" using Suc.prems by simp
  moreover have "d = length A - 1 - Suc i" using Suc.hyps(2) by simp
  ultimately obtain M' where M': "index_level1 A (Suc i) ?M1 = Some M'"
      "map length M' = map length ?M1"
      "\<And>l p. M' ! l ! p =
              (if l = 1 \<and> Suc i \<le> p \<and> p < length A - 1
               then (if A ! p \<le> A ! Suc p then p else Suc p) else ?M1 ! l ! p)"
    using Suc.hyps(1) [of "Suc i" ?M1] by blast
  have run: "index_level1 A i M = Some M'"
    using lt w M'(1) by (subst index_level1.simps) simp
  have "M' ! l ! p =
          (if l = 1 \<and> i \<le> p \<and> p < length A - 1
           then (if A ! p \<le> A ! Suc p then p else Suc p) else M ! l ! p)" for l p
    using M'(3) [of l p] update_nth [OF Suc.prems(1) il, of ?v l p] lt
    by (auto simp: le_Suc_eq)
  with run M'(2) sh show ?case by auto
qed

lemma index_inner_spec:
  assumes "0 < j" "j < length M" "i \<le> last_pos" "last_pos \<le> length (M ! j)"
    "last_pos + prev \<le> length (M ! (j - 1))"
    "\<forall>p < last_pos + prev. M ! (j - 1) ! p < length A"
  shows "\<exists>M'. index_inner A j prev i last_pos M = Some M' \<and> map length M' = map length M \<and>
           (\<forall>l p. M' ! l ! p =
              (if l = j \<and> i \<le> p \<and> p < last_pos then pick A (M ! (j - 1)) prev p else M ! l ! p))"
  using assms
proof (induction "last_pos - i" arbitrary: i M)
  case 0
  then have "i = last_pos" by simp
  then show ?case by (subst index_inner.simps) auto
next
  case (Suc d)
  then have lt: "i < last_pos" by simp
  let ?r = "M ! (j - 1)"
  let ?v = "pick A ?r prev i"
  let ?M1 = "M[j := (M ! j)[i := ?v]]"
  have jm: "j - 1 < length M" using Suc.prems(2) by simp
  have r1: "read2 M (j - 1) i = Some (?r ! i)"
    using jm lt Suc.prems(5) by (simp add: read2_def)
  have r2: "read2 M (j - 1) (i + prev) = Some (?r ! (i + prev))"
    using jm lt Suc.prems(5) by (simp add: read2_def)
  have v1: "nth_opt A (?r ! i) = Some (A ! (?r ! i))"
    using lt Suc.prems(6) by (simp add: nth_opt_def)
  have v2: "nth_opt A (?r ! (i + prev)) = Some (A ! (?r ! (i + prev)))"
    using lt Suc.prems(6) by (simp add: nth_opt_def)
  have il: "i < length (M ! j)" using lt Suc.prems(4) by simp
  have w: "write2 M j i ?v = Some ?M1"
    using Suc.prems(2) il by (rule write2_Some)
  have sh: "map length ?M1 = map length M"
    using Suc.prems(2) by (rule update_shape)
  have row: "?M1 ! (j - 1) = ?r" using Suc.prems(1) by simp
  have "j < length ?M1" using Suc.prems(2) by simp
  moreover have "Suc i \<le> last_pos" using lt by simp
  moreover have "last_pos \<le> length (?M1 ! j)" using Suc.prems(2,4) by simp
  moreover have "last_pos + prev \<le> length (?M1 ! (j - 1))" using Suc.prems(5) row by simp
  moreover have "\<forall>p < last_pos + prev. ?M1 ! (j - 1) ! p < length A"
    using Suc.prems(6) row by simp
  moreover have "d = last_pos - Suc i" using Suc.hyps(2) by simp
  ultimately obtain M' where M': "index_inner A j prev (Suc i) last_pos ?M1 = Some M'"
      "map length M' = map length ?M1"
      "\<And>l p. M' ! l ! p =
              (if l = j \<and> Suc i \<le> p \<and> p < last_pos then pick A (?M1 ! (j - 1)) prev p
               else ?M1 ! l ! p)"
    using Suc.hyps(1) [of "Suc i" ?M1] Suc.prems(1) by blast
  have run: "index_inner A j prev i last_pos M = Some M'"
    using lt r1 r2 v1 v2 w M'(1) by (subst index_inner.simps) (simp add: pick_def)
  have "M' ! l ! p =
          (if l = j \<and> i \<le> p \<and> p < last_pos then pick A ?r prev p else M ! l ! p)" for l p
    using M'(3) [of l p] update_nth [OF Suc.prems(2) il, of ?v l p] lt row
    by (auto simp: le_Suc_eq)
  with run M'(2) sh show ?case by auto
qed

lemma is_leftmost_min_less: "is_leftmost_min A lo hi k \<Longrightarrow> hi < n \<Longrightarrow> k < n"
  by (simp add: is_leftmost_min_def)

lemma index_level_step:
  assumes "2 \<le> j" "2 ^ j \<le> length A" "prev = 2 ^ (j - 1)" "j < length M"
    "\<forall>l < length M. length A - 1 \<le> length (M ! l)" "index_levels_built A j M"
  shows "\<exists>M'. index_inner A j prev 0 (length A - pow2 j + 1) M = Some M' \<and>
           map length M' = map length M \<and> index_levels_built A (Suc j) M'"
proof -
  let ?n = "length A"
  let ?last = "?n - pow2 j + 1"
  let ?r = "M ! (j - 1)"
  from assms(1) obtain j' where j': "j = Suc j'" "0 < j'" by (cases j) auto
  have b2: "2 * prev = 2 ^ j" using assms(3) j' by simp
  have bpos: "0 < prev" using assms(3) by simp
  have "(2::nat) ^ 1 \<le> 2 ^ j'" using j'(2) by (intro power_increasing) auto
  then have b2le: "2 \<le> prev" using assms(3) j'(1) by simp
  have ble: "2 * prev \<le> ?n" using b2 assms(2) by simp
  have last: "?last = ?n + 1 - 2 * prev" using b2 ble by (simp add: pow2_def)
  from assms(6) have inv: "\<And>l i. 1 \<le> l \<Longrightarrow> l < j \<Longrightarrow> i + 2 ^ l \<le> ?n \<Longrightarrow>
        is_leftmost_min A i (i + 2 ^ l - 1) (M ! l ! i)"
    unfolding index_levels_built_def by auto
  have invp: "is_leftmost_min A p (p + prev - 1) (?r ! p)" if "p + prev \<le> ?n" for p
    using inv [of "j - 1" p] that j' assms(3) by simp
  have c1: "0 < j" using assms(1) by simp
  have c3: "0 \<le> ?last" by simp
  have c4: "?last \<le> length (M ! j)"
  proof -
    have "?last \<le> ?n - 1" using last ble b2le by linarith
    moreover have "?n - 1 \<le> length (M ! j)" using assms(4,5) by simp
    ultimately show ?thesis by (rule order_trans)
  qed
  have c5: "?last + prev \<le> length (M ! (j - 1))"
  proof -
    have "?last + prev \<le> ?n - 1" using last ble b2le by linarith
    moreover have "?n - 1 \<le> length (M ! (j - 1))" using assms(4,5) by simp
    ultimately show ?thesis by (rule order_trans)
  qed
  have c6: "\<forall>p < ?last + prev. ?r ! p < ?n"
  proof (intro allI impI)
    fix p assume "p < ?last + prev"
    then have p: "p + prev \<le> ?n" using last ble by linarith
    then have "p + prev - 1 < ?n" using bpos by linarith
    with invp [OF p] show "?r ! p < ?n" by (rule is_leftmost_min_less)
  qed
  from index_inner_spec [OF c1 assms(4) c3 c4 c5 c6]
  obtain M' where M': "index_inner A j prev 0 ?last M = Some M'"
      "map length M' = map length M"
      "\<And>l p. M' ! l ! p =
              (if l = j \<and> 0 \<le> p \<and> p < ?last then pick A ?r prev p else M ! l ! p)"
    by blast
  have "is_leftmost_min A i (i + 2 ^ l - 1) (M' ! l ! i)"
    if l: "1 \<le> l" "l < Suc j" and i: "i + 2 ^ l \<le> ?n" for l i
  proof (cases "l < j")
    case True
    then have "M' ! l ! i = M ! l ! i" using M'(3) [of l i] by simp
    with inv [OF l(1) True i] show ?thesis by simp
  next
    case False
    with l have lj: "l = j" by simp
    with i b2 have ib: "i + 2 * prev \<le> ?n" by simp
    then have ilast: "i < ?last" using last by simp
    define x where "x = ?r ! i"
    define y where "y = ?r ! (i + prev)"
    have e: "M' ! l ! i = (if A ! y < A ! x then y else x)"
      using M'(3) [of l i] lj ilast by (simp add: pick_def x_def y_def)
    have lx: "is_leftmost_min A i (i + prev - 1) x"
      unfolding x_def using ib by (intro invp) simp
    have "is_leftmost_min A (i + prev) (i + prev + prev - 1) y"
      unfolding y_def using ib by (intro invp) simp
    moreover have "Suc (i + prev - 1) = i + prev" using bpos by simp
    moreover have "i + prev + prev - 1 = i + 2 ^ l - 1" using lj b2 by simp
    ultimately have ly: "is_leftmost_min A (Suc (i + prev - 1)) (i + 2 ^ l - 1) y"
      by (simp only:)
    from is_leftmost_min_join [OF lx ly] show ?thesis by (simp only: e)
  qed
  then have "index_levels_built A (Suc j) M'" unfolding index_levels_built_def by blast
  with M'(1,2) show ?thesis by blast
qed

lemma index_levels_spec:
  assumes "2 \<le> j" "j \<le> Suc lowerlogn" "2 ^ lowerlogn \<le> length A" "prev = 2 ^ (j - 1)"
    "lowerlogn < length M" "\<forall>l < length M. length A - 1 \<le> length (M ! l)"
    "index_levels_built A j M"
  shows "\<exists>M'. index_levels A (length A) lowerlogn j prev M = Some M' \<and>
           map length M' = map length M \<and> index_levels_built A (Suc lowerlogn) M'"
  using assms
proof (induction "Suc lowerlogn - j" arbitrary: j prev M)
  case 0
  then have "j = Suc lowerlogn" by simp
  with 0 show ?case by (subst index_levels.simps) simp
next
  case (Suc d)
  then have jle: "j \<le> lowerlogn" by simp
  then have "(2::nat) ^ j \<le> 2 ^ lowerlogn" by (intro power_increasing) auto
  from this Suc.prems(3) have pj: "2 ^ j \<le> length A" by (rule order_trans)
  have jM: "j < length M" using jle Suc.prems(5) by simp
  from index_level_step [OF Suc.prems(1) pj Suc.prems(4) jM Suc.prems(6) Suc.prems(7)]
  obtain M1 where M1: "index_inner A j prev 0 (length A - pow2 j + 1) M = Some M1"
    "map length M1 = map length M" "index_levels_built A (Suc j) M1" by blast
  have len1: "length M1 = length M" using M1(2) by (rule shape_length)
  have rows1: "\<forall>l < length M1. length A - 1 \<le> length (M1 ! l)"
    using Suc.prems(6) len1 shape_row [OF M1(2)] by simp
  have "pow2 j = 2 ^ (Suc j - 1)" by (simp add: pow2_def)
  moreover have "d = Suc lowerlogn - Suc j" using Suc.hyps(2) by simp
  moreover have "2 \<le> Suc j" "Suc j \<le> Suc lowerlogn" using Suc.prems(1) jle by simp_all
  moreover have "lowerlogn < length M1" using Suc.prems(5) len1 by simp
  ultimately have "\<exists>M'. index_levels A (length A) lowerlogn (Suc j) (pow2 j) M1 = Some M' \<and>
           map length M' = map length M1 \<and> index_levels_built A (Suc lowerlogn) M'"
    using Suc.prems(3) rows1 M1(3) by (intro Suc.hyps(1))
  then show ?case
    using jle M1(1,2) by (subst index_levels.simps) (auto simp: Let_def)
qed

lemma index_preprocess_sparse_table_built:
  assumes "3 \<le> length A" "lower_log2 (length A) < length M"
    "\<forall>row\<in>set M. length A - 1 \<le> length row"
  shows "\<exists>M'. index_preprocess_sparse_table A M = Some M' \<and> map length M' = map length M \<and>
           index_levels_built A (Suc (lower_log2 (length A))) M'"
proof -
  have lg: "1 \<le> lower_log2 (length A)"
    using assms(1) by (subst lower_log2.simps) simp
  have rows: "\<forall>l < length M. length A - 1 \<le> length (M ! l)"
    using assms(3) by simp
  have "1 < length M" using lg assms(2) by simp
  moreover have "length A - 1 \<le> length (M ! 1)" using rows calculation by simp
  ultimately obtain M1 where M1: "index_level1 A 0 M = Some M1" "map length M1 = map length M"
     "\<And>l p. M1 ! l ! p =
              (if l = 1 \<and> 0 \<le> p \<and> p < length A - 1
               then (if A ! p \<le> A ! Suc p then p else Suc p) else M ! l ! p)"
    using index_level1_spec [of M A 0] by blast
  have len1: "length M1 = length M" using M1(2) by (rule shape_length)
  have rows1: "\<forall>l < length M1. length A - 1 \<le> length (M1 ! l)"
    using rows len1 shape_row [OF M1(2)] by simp
  have "is_leftmost_min A i (i + 2 ^ l - 1) (M1 ! l ! i)"
    if "1 \<le> l \<and> l < 2 \<and> i + 2 ^ l \<le> length A" for l i
  proof -
    from that have l: "l = 1" by simp
    with that have "i + 2 \<le> length A" by simp
    then have "i < length A - 1" by simp
    then have "M1 ! 1 ! i = (if A ! i \<le> A ! Suc i then i else Suc i)"
      using M1(3) [of 1 i] by simp
    with l show ?thesis using is_leftmost_min_pair [of A i] by simp
  qed
  then have built: "index_levels_built A 2 M1" unfolding index_levels_built_def by blast
  have "0 < length A" using assms(1) by linarith
  then have "2 ^ lower_log2 (length A) \<le> length A" by (rule lower_log2_le)
  moreover have "2 \<le> Suc (lower_log2 (length A))" using lg by simp
  moreover have "lower_log2 (length A) < length M1" using assms(2) len1 by simp
  moreover have "(2::nat) = 2 ^ (2 - 1)" by simp
  ultimately have "\<exists>M'. index_levels A (length A) (lower_log2 (length A)) 2 2 M1 = Some M' \<and>
           map length M' = map length M1 \<and>
           index_levels_built A (Suc (lower_log2 (length A))) M'"
    using rows1 built by (intro index_levels_spec) auto
  moreover have "length A > 2" using assms(1) by simp
  ultimately show ?thesis
    using M1(1,2) by (auto simp: index_preprocess_sparse_table_def Let_def)
qed

subsection \<open>What the builders store\<close>





subsection \<open>Inputs below the threshold\<close>

text \<open>
  C8. For an input of fewer than three elements (two included) neither builder adds an
  entry: \<open>preprocess_sparse_table\<close> returns the table it was given, an empty one stays
  empty, and \<open>index_preprocess_sparse_table\<close> returns its array unchanged, so level 1 is
  not built when \<open>n = 2\<close>.
\<close>

theorem small_input_leaves_table:
  assumes "length A < 3"
  shows "preprocess_sparse_table A M = Some M \<and> preprocess_sparse_table A [] = Some [] \<and>
         index_preprocess_sparse_table A M2 = Some M2"
proof -
  from assms have "length A = 0 \<or> length A = 1 \<or> length A = 2" by arith
  then show ?thesis
    by (auto simp: preprocess_sparse_table_def index_preprocess_sparse_table_def)
qed

theorem small_input_leaves_table_witness:
  "length [5, 2 :: nat] < 3 \<and>
   preprocess_sparse_table [5, 2 :: nat] [7] = Some [7] \<and>
   preprocess_sparse_table [5, 2 :: nat] [] = Some [] \<and>
   index_preprocess_sparse_table [5, 2 :: nat] [[0, 0], [0, 0]] = Some [[0, 0], [0, 0]]"
  using small_input_leaves_table [of "[5, 2 :: nat]" "[7]" "[[0, 0], [0, 0]]"] by simp

subsection \<open>What the builders leave untouched\<close>







lemma lower_log2_pos: "2 \<le> n \<Longrightarrow> 1 \<le> lower_log2 n"
  by (subst lower_log2.simps) simp













subsection \<open>Queries on more than one element\<close>

text \<open>
  Over a sequence of at least three elements (a shorter one gets no table) and on a
  range of two elements and more, \<open>query_sparse_table\<close> returns the leftmost minimum of
  the range, and so does \<open>index_query_sparse_table\<close> as long as the range has fewer
  than eight elements, where \<open>2 * k\<close> and \<open>2 ^ k\<close> agree.
\<close>

lemma is_leftmost_min_overlap:
  assumes "is_leftmost_min A a b x" "is_leftmost_min A c d y" "a \<le> c" "c \<le> Suc b" "b \<le> d"
  shows "is_leftmost_min A a d (if A ! y < A ! x then y else x)"
proof (cases "A ! y < A ! x")
  case True
  have "A ! y \<le> A ! m" if "m \<in> {a..d}" for m
  proof (cases "m \<le> b")
    case True
    with that assms(1) have "A ! x \<le> A ! m" by (auto simp: is_leftmost_min_def)
    with \<open>A ! y < A ! x\<close> show ?thesis by simp
  next
    case False
    with that assms(4) have "m \<in> {c..d}" by auto
    with assms(2) show ?thesis by (auto simp: is_leftmost_min_def)
  qed
  moreover have "A ! y < A ! m" if "m \<in> {a..<y}" for m
  proof (cases "m \<le> b")
    case True
    with that assms(1) have "A ! x \<le> A ! m" by (auto simp: is_leftmost_min_def)
    with \<open>A ! y < A ! x\<close> show ?thesis by simp
  next
    case False
    with that assms(4) have "m \<in> {c..<y}" by auto
    with assms(2) show ?thesis by (auto simp: is_leftmost_min_def)
  qed
  moreover from assms have "a \<le> y" "y \<le> d" by (auto simp: is_leftmost_min_def)
  ultimately show ?thesis using True by (simp add: is_leftmost_min_def)
next
  case False
  then have le: "A ! x \<le> A ! y" by simp
  have "A ! x \<le> A ! m" if "m \<in> {a..d}" for m
  proof (cases "m \<le> b")
    case True
    with that assms(1) show ?thesis by (auto simp: is_leftmost_min_def)
  next
    case False
    with that assms(4) have "m \<in> {c..d}" by auto
    with assms(2) have "A ! y \<le> A ! m" by (auto simp: is_leftmost_min_def)
    with le show ?thesis by simp
  qed
  moreover have "A ! x < A ! m" if "m \<in> {a..<x}" for m
    using that assms(1) by (auto simp: is_leftmost_min_def)
  moreover from assms have "a \<le> x" "x \<le> d" by (auto simp: is_leftmost_min_def)
  ultimately show ?thesis using False by (simp add: is_leftmost_min_def)
qed

lemma lower_log2_mono_bound:
  assumes "0 < r" "r \<le> n"
  shows "lower_log2 r \<le> lower_log2 n"
proof -
  have "2 ^ lower_log2 r \<le> r" using assms(1) by (rule lower_log2_le)
  also have "r \<le> n" by (rule assms(2))
  also have "n < 2 ^ Suc (lower_log2 n)" by (rule lower_log2_gt)
  finally have "(2::nat) ^ lower_log2 r < 2 ^ Suc (lower_log2 n)" .
  then have "lower_log2 r < Suc (lower_log2 n)" by (rule power_less_imp_less_exp [rotated]) simp
  then show ?thesis by simp
qed

lemma level_entry_in_table:
  assumes "0 < l" "l \<le> L" "i + 2 ^ l \<le> n"
  shows "level_start n l + i < level_start n (Suc L)"
proof -
  have "level_start n l + i < level_start n (Suc l)"
    using assms(1,3) by (simp add: level_start_Suc)
  also have "\<dots> \<le> level_start n (Suc L)" using assms(2) by (intro level_start_mono) simp
  finally show ?thesis .
qed

lemma query_sparse_table_range:
  assumes n3: "3 \<le> length A" and nmax: "length A < size_max"
    and F: "preprocess_sparse_table A [] = Some F"
    and ij: "i < j" "j < length A"
  shows "\<exists>m. query_sparse_table A i j (length A) F = Some m \<and> is_leftmost_min A i j m"
proof -
  let ?n = "length A"
  let ?L = "lower_log2 ?n"
  define r where "r = j - i + 1"
  define k where "k = lower_log2 r"
  define w where "w = (2::nat) ^ k"
  from preprocess_sparse_table_built [OF n3] F
  have built: "flat_levels_built A (Suc ?L) F" by simp
  have r2: "2 \<le> r" "r \<le> ?n" using ij by (simp_all add: r_def)
  have k1: "1 \<le> k" unfolding k_def using r2(1) by (rule lower_log2_pos)
  have kL: "k \<le> ?L" unfolding k_def using r2 by (intro lower_log2_mono_bound) auto
  have wr: "w \<le> r" unfolding w_def k_def using r2(1) by (intro lower_log2_le) simp
  have rw: "r < 2 * w" using lower_log2_gt [of r] by (simp add: w_def k_def)
  have wj: "w \<le> j + 1" using wr ij by (simp add: r_def)
  define s where "s = j + 1 - w"
  have wrap: "(j + size_max - pow2 k + 1) mod size_max = s"
  proof -
    have "1 \<le> size_max" by (simp add: size_max_def)
    with wj have "j + size_max - w + 1 = (j + 1 - w) + size_max" by linarith
    then have "j + size_max - pow2 k + 1 = s + size_max"
      by (simp only: pow2_def w_def s_def)
    moreover have "s < size_max" using ij nmax by (simp add: s_def)
    ultimately show ?thesis by simp
  qed
  have is_: "i \<le> s" using wr ij by (simp add: s_def r_def)
  have iw: "i + 2 ^ k \<le> ?n" using wr ij r2 by (simp add: w_def [symmetric] r_def)
  have sw: "s + 2 ^ k \<le> ?n" using wj ij by (simp add: w_def [symmetric] s_def)
  have tx: "translate_sparse_table i k ?n = level_start ?n k + i"
    using k1 iw by (intro translate_level_start) auto
  have ty: "translate_sparse_table s k ?n = level_start ?n k + s"
    using k1 sw by (intro translate_level_start) auto
  from built have len: "length F = level_start ?n (Suc ?L)"
    and val: "\<forall>x\<in>set F. x < ?n"
    and inv: "\<And>l p. 1 \<le> l \<Longrightarrow> l < Suc ?L \<Longrightarrow> p + 2 ^ l \<le> ?n \<Longrightarrow>
        is_leftmost_min A p (p + 2 ^ l - 1) (F ! (level_start ?n l + p))"
    unfolding flat_levels_built_def by auto
  define x where "x = level_start ?n k + i"
  define y where "y = level_start ?n k + s"
  have xF: "x < length F" unfolding x_def len using k1 kL iw by (intro level_entry_in_table) auto
  have yF: "y < length F" unfolding y_def len using k1 kL sw by (intro level_entry_in_table) auto
  have xA: "F ! x < ?n" using xF val by simp
  have yA: "F ! y < ?n" using yF val by simp
  have lx: "is_leftmost_min A i (i + w - 1) (F ! x)"
    unfolding x_def w_def using k1 kL iw by (intro inv) auto
  have ly: "is_leftmost_min A s (s + w - 1) (F ! y)"
    unfolding y_def w_def using k1 kL sw by (intro inv) auto
  have "s + w - 1 = j" using wj by (simp add: s_def)
  with ly have ly': "is_leftmost_min A s j (F ! y)" by simp
  have wpos: "0 < w" by (simp add: w_def)
  have "s \<le> Suc (i + w - 1)" using rw ij wpos by (simp add: s_def r_def)
  moreover have "i + w - 1 \<le> j" using wr ij by (simp add: r_def)
  ultimately have res: "is_leftmost_min A i j (if A ! (F ! y) < A ! (F ! x) then F ! y else F ! x)"
    using lx ly' is_ by (intro is_leftmost_min_overlap [of A i "i + w - 1" _ s]) auto
  have c: "i \<le> j" "j < ?n" "i \<noteq> j" using ij by auto
  have k': "lower_log2 (j - i + 1) = k" by (simp only: k_def r_def)
  have tx': "translate_sparse_table i k ?n = x" by (simp only: tx x_def)
  have ty': "translate_sparse_table s k ?n = y" by (simp only: ty y_def)
  have nx: "nth_opt F x = Some (F ! x)" using xF by (simp add: nth_opt_def)
  have ny: "nth_opt F y = Some (F ! y)" using yF by (simp add: nth_opt_def)
  have nax: "nth_opt A (F ! x) = Some (A ! (F ! x))" using xA by (simp add: nth_opt_def)
  have nay: "nth_opt A (F ! y) = Some (A ! (F ! y))" using yA by (simp add: nth_opt_def)
  have "query_sparse_table A i j ?n F =
        Some (if A ! (F ! y) < A ! (F ! x) then F ! y else F ! x)"
    unfolding query_sparse_table_def
    by (simp only: c k' Let_def wrap tx' ty' nx ny nax nay if_False if_True simp_thms
          option.case prod.case)
  with res show ?thesis by simp
qed

lemma index_query_sparse_table_short_range:
  assumes n3: "3 \<le> length A" and rows: "lower_log2 (length A) < length M"
    and cells: "\<forall>row\<in>set M. length A - 1 \<le> length row"
    and T: "index_preprocess_sparse_table A M = Some T"
    and ij: "i < j" "j < length A" and short: "j - i + 1 < 8"
  shows "\<exists>m. index_query_sparse_table i j A T = Some m \<and> is_leftmost_min A i j m"
proof -
  let ?n = "length A"
  let ?L = "lower_log2 ?n"
  define r where "r = j - i + 1"
  define k where "k = lower_log2 r"
  define w where "w = (2::nat) ^ k"
  from index_preprocess_sparse_table_built [OF n3 rows cells] T
  have shape: "map length T = map length M" and built: "index_levels_built A (Suc ?L) T"
    by simp_all
  have r2: "2 \<le> r" "r \<le> ?n" using ij by (simp_all add: r_def)
  have k1: "1 \<le> k" unfolding k_def using r2(1) by (rule lower_log2_pos)
  have kL: "k \<le> ?L" unfolding k_def using r2 by (intro lower_log2_mono_bound) auto
  have wr: "w \<le> r" unfolding w_def k_def using r2(1) by (intro lower_log2_le) simp
  have rw: "r < 2 * w" using lower_log2_gt [of r] by (simp add: w_def k_def)
  have "w < 2 ^ 3" using wr short by (simp add: r_def)
  then have "k < 3" unfolding w_def by (rule power_less_imp_less_exp [rotated]) simp
  with k1 have "k = 1 \<or> k = 2" by arith
  then have w2k: "2 * k = w" unfolding w_def by auto
  have w2: "2 \<le> w" using w2k k1 by simp
  define s where "s = j + 1 - w"
  have "i + (r - w) = s" using wr ij by (simp add: s_def r_def)
  then have "i + (r - 2 * k) = s" by (simp only: w2k)
  then have cellsq: "index_query_cells i j = ((k, i), (k, s))"
    unfolding index_query_cells_def by (simp only: Let_def r_def [symmetric] k_def [symmetric])
  have iw: "i + 2 ^ k \<le> ?n" using wr ij r2 by (simp add: w_def [symmetric] r_def)
  have sw: "s + 2 ^ k \<le> ?n" using wr ij by (simp add: w_def [symmetric] s_def r_def)
  from built have inv: "\<And>l p. 1 \<le> l \<Longrightarrow> l < Suc ?L \<Longrightarrow> p + 2 ^ l \<le> ?n \<Longrightarrow>
        is_leftmost_min A p (p + 2 ^ l - 1) (T ! l ! p)"
    unfolding index_levels_built_def by auto
  have kT: "k < length T" using kL rows shape_length [OF shape] by simp
  have kM: "k < length M" using kL rows by simp
  have "length (T ! k) = length (M ! k)" using shape kM by (rule shape_row)
  moreover have "?n - 1 \<le> length (M ! k)" using cells kM by simp
  ultimately have row: "?n - 1 \<le> length (T ! k)" by simp
  have iT: "i < length (T ! k)" using row ij by simp
  have sT: "s < length (T ! k)" using row ij w2 by (simp add: s_def)
  define x where "x = T ! k ! i"
  define y where "y = T ! k ! s"
  have lx: "is_leftmost_min A i (i + w - 1) x"
    unfolding x_def w_def using k1 kL iw by (intro inv) auto
  have ly: "is_leftmost_min A s (s + w - 1) y"
    unfolding y_def w_def using k1 kL sw by (intro inv) auto
  have "s + w - 1 = j" using wr ij by (simp add: s_def r_def)
  with ly have ly': "is_leftmost_min A s j y" by simp
  have "i + w - 1 < ?n" using iw w2 by (simp add: w_def [symmetric])
  with lx have xA: "x < ?n" by (rule is_leftmost_min_less)
  have yA: "y < ?n" using ly' ij(2) by (rule is_leftmost_min_less)
  have is_: "i \<le> s" using wr ij by (simp add: s_def r_def)
  have "s \<le> Suc (i + w - 1)" using rw ij w2 by (simp add: s_def r_def)
  moreover have "i + w - 1 \<le> j" using wr ij by (simp add: r_def)
  ultimately have res: "is_leftmost_min A i j (if A ! y < A ! x then y else x)"
    using lx ly' is_ by (intro is_leftmost_min_overlap [of A i "i + w - 1" _ s]) auto
  have c: "i \<le> j" "i \<noteq> j" using ij by auto
  have rx: "read2 T k i = Some x" using kT iT by (simp add: read2_def x_def)
  have ry: "read2 T k s = Some y" using kT sT by (simp add: read2_def y_def)
  have nax: "nth_opt A x = Some (A ! x)" using xA by (simp add: nth_opt_def)
  have nay: "nth_opt A y = Some (A ! y)" using yA by (simp add: nth_opt_def)
  have "index_query_sparse_table i j A T = Some (if A ! y < A ! x then y else x)"
    unfolding index_query_sparse_table_def
    by (simp only: c cellsq rx ry nax nay if_False if_True simp_thms option.case prod.case)
  with res show ?thesis by simp
qed

subsection \<open>Queries on a single element\<close>


lemma query_sparse_table_single:
  "i < n \<Longrightarrow> query_sparse_table A i i n sparse_table = nth_opt sparse_table i"
  by (simp add: query_sparse_table_def)

lemma flat_table_3: "preprocess_sparse_table [5, 2, 8 :: nat] [] = Some [1, 1]"
  by code_simp

text \<open>
  C4. On the range \<open>[i, i]\<close> \<open>index_query_sparse_table\<close> returns \<open>i\<close> without reading the
  table, but \<open>query_sparse_table\<close> returns \<open>sparse_table[i]\<close>, the level-1 entry of the
  window \<open>[i, i + 1]\<close>. For \<open>A = [5, 2, 8]\<close> the table is \<open>[1, 1]\<close>: the query on
  \<open>[0, 0]\<close> yields the iterator to element \<open>1\<close> (value \<open>2\<close>), not to element \<open>0\<close>, and the
  query on \<open>[2, 2]\<close> reads past the end of the table.
\<close>

theorem query_single_element:
  "preprocess_sparse_table [5, 2, 8 :: nat] [] = Some [1, 1] \<and>
   query_sparse_table [5, 2, 8 :: nat] 0 0 3 [1, 1] = Some 1 \<and>
   query_sparse_table [5, 2, 8 :: nat] 2 2 3 [1, 1] = None \<and>
   index_query_sparse_table 0 0 [5, 2, 8 :: nat] [[0, 0, 0], [1, 1, 0]] = Some 0"
  by (simp add: flat_table_3 query_sparse_table_def index_query_sparse_table_def nth_opt_def)

subsection \<open>Queries on eight elements and more\<close>

lemma flat_table_8:
  "preprocess_sparse_table [3, 1, 4, 1, 5, 9, 2, 6 :: nat] [] =
   Some [1, 1, 3, 3, 4, 6, 6, 1, 1, 3, 3, 6, 1]"
  by code_simp

lemma index_table_10:
  "index_preprocess_sparse_table [5, 5, 5, 5, 5, 5, 5, 5, 1, 5 :: nat] (replicate 4 (replicate 10 0)) =
   Some [[0, 0, 0, 0, 0, 0, 0, 0, 0, 0], [0, 1, 2, 3, 4, 5, 6, 8, 8, 0],
         [0, 1, 2, 3, 4, 8, 8, 0, 0, 0], [0, 8, 8, 0, 0, 0, 0, 0, 0, 0]]"
  by code_simp

lemma lower_log2_8: "lower_log2 8 = 3"
  by code_simp

lemma index_query_cells_0_7: "index_query_cells 0 7 = ((3, 0), (3, 2))"
  by (simp add: index_query_cells_def Let_def lower_log2_8)

text \<open>
  C2. The queries do not always return the leftmost minimum of the range. For
  \<open>A = [3, 1, 4, 1, 5, 9, 2, 6]\<close> the flat query on \<open>[2, 2]\<close> returns the iterator to
  element \<open>3\<close>, outside the range. For \<open>A = [5, 5, 5, 5, 5, 5, 5, 5, 1, 5]\<close> the index
  query on \<open>[0, 7]\<close> reads \<open>M[3][0]\<close> and \<open>M[3][2]\<close>, the windows \<open>[0, 7]\<close> and \<open>[2, 9]\<close>,
  and returns \<open>8\<close>, outside the range: the second window starts at \<open>i + (r - 2 * k)\<close>
  where \<open>i + (r - 2 ^ k)\<close> is needed, and the two differ from \<open>k = 3\<close> on.
\<close>

theorem query_outside_range:
  "preprocess_sparse_table [3, 1, 4, 1, 5, 9, 2, 6 :: nat] [] =
     Some [1, 1, 3, 3, 4, 6, 6, 1, 1, 3, 3, 6, 1] \<and>
   query_sparse_table [3, 1, 4, 1, 5, 9, 2, 6 :: nat] 2 2 8
     [1, 1, 3, 3, 4, 6, 6, 1, 1, 3, 3, 6, 1] = Some 3 \<and>
   index_preprocess_sparse_table [5, 5, 5, 5, 5, 5, 5, 5, 1, 5 :: nat] (replicate 4 (replicate 10 0)) =
     Some [[0, 0, 0, 0, 0, 0, 0, 0, 0, 0], [0, 1, 2, 3, 4, 5, 6, 8, 8, 0],
           [0, 1, 2, 3, 4, 8, 8, 0, 0, 0], [0, 8, 8, 0, 0, 0, 0, 0, 0, 0]] \<and>
   index_query_sparse_table 0 7 [5, 5, 5, 5, 5, 5, 5, 5, 1, 5 :: nat]
     [[0, 0, 0, 0, 0, 0, 0, 0, 0, 0], [0, 1, 2, 3, 4, 5, 6, 8, 8, 0],
      [0, 1, 2, 3, 4, 8, 8, 0, 0, 0], [0, 8, 8, 0, 0, 0, 0, 0, 0, 0]] = Some 8"
proof (intro conjI)
  show "preprocess_sparse_table [3, 1, 4, 1, 5, 9, 2, 6 :: nat] [] =
     Some [1, 1, 3, 3, 4, 6, 6, 1, 1, 3, 3, 6, 1]" by (rule flat_table_8)
  show "query_sparse_table [3, 1, 4, 1, 5, 9, 2, 6 :: nat] 2 2 8
     [1, 1, 3, 3, 4, 6, 6, 1, 1, 3, 3, 6, 1] = Some 3"
    by (simp add: query_sparse_table_def nth_opt_def)
  show "index_preprocess_sparse_table [5, 5, 5, 5, 5, 5, 5, 5, 1, 5 :: nat] (replicate 4 (replicate 10 0)) =
     Some [[0, 0, 0, 0, 0, 0, 0, 0, 0, 0], [0, 1, 2, 3, 4, 5, 6, 8, 8, 0],
           [0, 1, 2, 3, 4, 8, 8, 0, 0, 0], [0, 8, 8, 0, 0, 0, 0, 0, 0, 0]]"
    by (rule index_table_10)
  show "index_query_sparse_table 0 7 [5, 5, 5, 5, 5, 5, 5, 5, 1, 5 :: nat]
     [[0, 0, 0, 0, 0, 0, 0, 0, 0, 0], [0, 1, 2, 3, 4, 5, 6, 8, 8, 0],
      [0, 1, 2, 3, 4, 8, 8, 0, 0, 0], [0, 8, 8, 0, 0, 0, 0, 0, 0, 0]] = Some 8"
    by (simp add: index_query_sparse_table_def index_query_cells_0_7 read2_def nth_opt_def)
qed

lemma index_table_8:
  "index_preprocess_sparse_table [1, 2, 3, 4, 5, 6, 7, 0 :: nat] (replicate 4 (replicate 8 99)) =
   Some [[99, 99, 99, 99, 99, 99, 99, 99], [0, 1, 2, 3, 4, 5, 7, 99],
         [0, 1, 2, 3, 7, 99, 99, 99], [7, 99, 99, 99, 99, 99, 99, 99]]"
  by code_simp

text \<open>
  C9. With \<open>n = 8\<close>, \<open>i = 0\<close> and \<open>j = 7\<close> the index query reads the cells \<open>(3, 0)\<close> and
  \<open>(3, 2)\<close>. Level 3 has the single valid position \<open>0 = n - 2 ^ 3\<close>, so the second read
  is outside the valid range of its level: the builder never wrote that cell, the
  query finds there what the array held before (\<open>99\<close> here) and indexes \<open>A\<close> with it.
\<close>

theorem index_query_reads_unbuilt_cell:
  "index_query_cells 0 7 = ((3, 0), (3, 2)) \<and> \<not> 2 \<le> 8 - pow2 3 \<and>
   index_preprocess_sparse_table [1, 2, 3, 4, 5, 6, 7, 0 :: nat] (replicate 4 (replicate 8 99)) =
     Some [[99, 99, 99, 99, 99, 99, 99, 99], [0, 1, 2, 3, 4, 5, 7, 99],
           [0, 1, 2, 3, 7, 99, 99, 99], [7, 99, 99, 99, 99, 99, 99, 99]] \<and>
   read2 [[99, 99, 99, 99, 99, 99, 99, 99], [0, 1, 2, 3, 4, 5, 7, 99],
          [0, 1, 2, 3, 7, 99, 99, 99], [7, 99, 99, 99, 99, 99, 99, 99 :: nat]] 3 2 = Some 99 \<and>
   index_query_sparse_table 0 7 [1, 2, 3, 4, 5, 6, 7, 0 :: nat]
     [[99, 99, 99, 99, 99, 99, 99, 99], [0, 1, 2, 3, 4, 5, 7, 99],
      [0, 1, 2, 3, 7, 99, 99, 99], [7, 99, 99, 99, 99, 99, 99, 99]] = None"
proof (intro conjI)
  show "index_query_cells 0 7 = ((3, 0), (3, 2))" by (rule index_query_cells_0_7)
  show "\<not> 2 \<le> 8 - pow2 3" by (simp add: pow2_def)
  show "index_preprocess_sparse_table [1, 2, 3, 4, 5, 6, 7, 0 :: nat] (replicate 4 (replicate 8 99)) =
     Some [[99, 99, 99, 99, 99, 99, 99, 99], [0, 1, 2, 3, 4, 5, 7, 99],
           [0, 1, 2, 3, 7, 99, 99, 99], [7, 99, 99, 99, 99, 99, 99, 99]]"
    by (rule index_table_8)
  show "read2 [[99, 99, 99, 99, 99, 99, 99, 99], [0, 1, 2, 3, 4, 5, 7, 99],
          [0, 1, 2, 3, 7, 99, 99, 99], [7, 99, 99, 99, 99, 99, 99, 99 :: nat]] 3 2 = Some 99"
    by (simp add: read2_def)
  show "index_query_sparse_table 0 7 [1, 2, 3, 4, 5, 6, 7, 0 :: nat]
     [[99, 99, 99, 99, 99, 99, 99, 99], [0, 1, 2, 3, 4, 5, 7, 99],
      [0, 1, 2, 3, 7, 99, 99, 99], [7, 99, 99, 99, 99, 99, 99, 99]] = None"
    by (simp add: index_query_sparse_table_def index_query_cells_0_7 read2_def nth_opt_def)
qed

lemma flat_table_11:
  "preprocess_sparse_table [4, 4, 4, 4, 4, 4, 4, 4, 4, 0, 4 :: nat] [] =
   Some [0, 1, 2, 3, 4, 5, 6, 7, 9, 9, 0, 1, 2, 3, 4, 5, 9, 9, 0, 1, 9, 9]"
  by code_simp

lemma index_table_11:
  "index_preprocess_sparse_table [4, 4, 4, 4, 4, 4, 4, 4, 4, 0, 4 :: nat] (replicate 4 (replicate 11 0)) =
   Some [[0, 0, 0, 0, 0, 0, 0, 0, 0, 0, 0], [0, 1, 2, 3, 4, 5, 6, 7, 9, 9, 0],
         [0, 1, 2, 3, 4, 5, 9, 9, 0, 0, 0], [0, 1, 9, 9, 0, 0, 0, 0, 0, 0, 0]]"
  by code_simp

lemma index_query_cells_1_8: "index_query_cells (Suc 0) 8 = ((3, 1), (3, 3))"
  by (simp add: index_query_cells_def Let_def lower_log2_8)

text \<open>
  C5. \<open>translate_sparse_table\<close> gives the position of an entry in the flat table, the
  start of its level plus \<open>i\<close> (\<open>translate_level_start\<close>), and the builder stores the
  entry there, but the two representations do not answer alike. For
  \<open>A = [4, 4, 4, 4, 4, 4, 4, 4, 4, 0, 4]\<close> the flat query on \<open>[1, 8]\<close> returns element
  \<open>1\<close> and the index query returns \<open>9\<close>; on \<open>[8, 8]\<close> the flat query returns element \<open>9\<close>
  and the index query returns \<open>8\<close>.
\<close>

theorem flat_and_index_queries_differ:
  "preprocess_sparse_table [4, 4, 4, 4, 4, 4, 4, 4, 4, 0, 4 :: nat] [] =
     Some [0, 1, 2, 3, 4, 5, 6, 7, 9, 9, 0, 1, 2, 3, 4, 5, 9, 9, 0, 1, 9, 9] \<and>
   index_preprocess_sparse_table [4, 4, 4, 4, 4, 4, 4, 4, 4, 0, 4 :: nat] (replicate 4 (replicate 11 0)) =
     Some [[0, 0, 0, 0, 0, 0, 0, 0, 0, 0, 0], [0, 1, 2, 3, 4, 5, 6, 7, 9, 9, 0],
           [0, 1, 2, 3, 4, 5, 9, 9, 0, 0, 0], [0, 1, 9, 9, 0, 0, 0, 0, 0, 0, 0]] \<and>
   query_sparse_table [4, 4, 4, 4, 4, 4, 4, 4, 4, 0, 4 :: nat] 1 8 11
     [0, 1, 2, 3, 4, 5, 6, 7, 9, 9, 0, 1, 2, 3, 4, 5, 9, 9, 0, 1, 9, 9] = Some 1 \<and>
   index_query_sparse_table 1 8 [4, 4, 4, 4, 4, 4, 4, 4, 4, 0, 4 :: nat]
     [[0, 0, 0, 0, 0, 0, 0, 0, 0, 0, 0], [0, 1, 2, 3, 4, 5, 6, 7, 9, 9, 0],
      [0, 1, 2, 3, 4, 5, 9, 9, 0, 0, 0], [0, 1, 9, 9, 0, 0, 0, 0, 0, 0, 0]] = Some 9 \<and>
   query_sparse_table [4, 4, 4, 4, 4, 4, 4, 4, 4, 0, 4 :: nat] 8 8 11
     [0, 1, 2, 3, 4, 5, 6, 7, 9, 9, 0, 1, 2, 3, 4, 5, 9, 9, 0, 1, 9, 9] = Some 9 \<and>
   index_query_sparse_table 8 8 [4, 4, 4, 4, 4, 4, 4, 4, 4, 0, 4 :: nat]
     [[0, 0, 0, 0, 0, 0, 0, 0, 0, 0, 0], [0, 1, 2, 3, 4, 5, 6, 7, 9, 9, 0],
      [0, 1, 2, 3, 4, 5, 9, 9, 0, 0, 0], [0, 1, 9, 9, 0, 0, 0, 0, 0, 0, 0]] = Some 8"
proof (intro conjI)
  show "preprocess_sparse_table [4, 4, 4, 4, 4, 4, 4, 4, 4, 0, 4 :: nat] [] =
     Some [0, 1, 2, 3, 4, 5, 6, 7, 9, 9, 0, 1, 2, 3, 4, 5, 9, 9, 0, 1, 9, 9]"
    by (rule flat_table_11)
  show "index_preprocess_sparse_table [4, 4, 4, 4, 4, 4, 4, 4, 4, 0, 4 :: nat] (replicate 4 (replicate 11 0)) =
     Some [[0, 0, 0, 0, 0, 0, 0, 0, 0, 0, 0], [0, 1, 2, 3, 4, 5, 6, 7, 9, 9, 0],
           [0, 1, 2, 3, 4, 5, 9, 9, 0, 0, 0], [0, 1, 9, 9, 0, 0, 0, 0, 0, 0, 0]]"
    by (rule index_table_11)
  show "query_sparse_table [4, 4, 4, 4, 4, 4, 4, 4, 4, 0, 4 :: nat] 1 8 11
     [0, 1, 2, 3, 4, 5, 6, 7, 9, 9, 0, 1, 2, 3, 4, 5, 9, 9, 0, 1, 9, 9] = Some 1"
    by (simp add: query_sparse_table_def translate_sparse_table_def pow2_def size_max_def
          nth_opt_def lower_log2_8)
  show "index_query_sparse_table 1 8 [4, 4, 4, 4, 4, 4, 4, 4, 4, 0, 4 :: nat]
     [[0, 0, 0, 0, 0, 0, 0, 0, 0, 0, 0], [0, 1, 2, 3, 4, 5, 6, 7, 9, 9, 0],
      [0, 1, 2, 3, 4, 5, 9, 9, 0, 0, 0], [0, 1, 9, 9, 0, 0, 0, 0, 0, 0, 0]] = Some 9"
    by (simp add: index_query_sparse_table_def index_query_cells_1_8 read2_def nth_opt_def)
  show "query_sparse_table [4, 4, 4, 4, 4, 4, 4, 4, 4, 0, 4 :: nat] 8 8 11
     [0, 1, 2, 3, 4, 5, 6, 7, 9, 9, 0, 1, 2, 3, 4, 5, 9, 9, 0, 1, 9, 9] = Some 9"
    by (simp add: query_sparse_table_def nth_opt_def)
  show "index_query_sparse_table 8 8 [4, 4, 4, 4, 4, 4, 4, 4, 4, 0, 4 :: nat]
     [[0, 0, 0, 0, 0, 0, 0, 0, 0, 0, 0], [0, 1, 2, 3, 4, 5, 6, 7, 9, 9, 0],
      [0, 1, 2, 3, 4, 5, 9, 9, 0, 0, 0], [0, 1, 9, 9, 0, 0, 0, 0, 0, 0, 0]] = Some 8"
    by (simp add: index_query_sparse_table_def)
qed

subsection \<open>First occurrences\<close>

lemma representative_loop_n_eq:
  assumes "i \<le> n" "n \<le> length A"
  shows "representative_loop_n A i i n (set (take i A)) result =
         Some (result @ filter (\<lambda>k. A ! k \<notin> set (take k A)) [i..<n])"
  using assms
proof (induction "n - i" arbitrary: i result)
  case 0
  then show ?case by (subst representative_loop_n.simps) simp
next
  case (Suc d)
  then have lt: "i < n" "i < length A" by auto
  have seen: "insert (A ! i) (set (take i A)) = set (take (Suc i) A)"
    using lt by (simp add: take_Suc_conv_app_nth)
  have up: "[i..<n] = i # [Suc i..<n]" using lt by (simp add: upt_conv_Cons)
  have d: "d = n - Suc i" using Suc.hyps(2) by simp
  show ?case
  proof (cases "A ! i \<in> set (take i A)")
    case True
    then have "insert (A ! i) (set (take i A)) = set (take i A)" by (rule insert_absorb)
    with seen have same: "set (take (Suc i) A) = set (take i A)" by simp
    have "representative_loop_n A i i n (set (take i A)) result =
          representative_loop_n A (Suc i) (Suc i) n (set (take (Suc i) A)) result"
      using lt True same by (subst representative_loop_n.simps) (simp add: nth_opt_def)
    also have "\<dots> = Some (result @ filter (\<lambda>k. A ! k \<notin> set (take k A)) [Suc i..<n])"
      using d lt Suc.prems by (intro Suc.hyps(1)) auto
    finally show ?thesis using True up by simp
  next
    case False
    have "representative_loop_n A i i n (set (take i A)) result =
          representative_loop_n A (Suc i) (Suc i) n (set (take (Suc i) A)) (result @ [i])"
      using lt False seen by (subst representative_loop_n.simps) (simp add: nth_opt_def)
    also have "\<dots> = Some ((result @ [i]) @ filter (\<lambda>k. A ! k \<notin> set (take k A)) [Suc i..<n])"
      using d lt Suc.prems by (intro Suc.hyps(1)) auto
    finally show ?thesis using False up by simp
  qed
qed

lemma representative_element_n_first_occurrences:
  "n \<le> length A \<Longrightarrow>
   representative_element_n A n result =
     Some (result @ filter (\<lambda>k. A ! k \<notin> set (take k A)) [0..<n])"
  using representative_loop_n_eq [of 0 n A result] by (simp add: representative_element_n_def)

text \<open>
  C6. The counted overload writes the first position of every distinct element
  (\<open>representative_element_n_first_occurrences\<close>). The iterator-range overload advances
  \<open>first\<close> twice per round: it looks at every other element only and writes the round
  number, not the position. On \<open>[0, 0, 1, 0, 2, 1, 2, 1]\<close> it writes \<open>0, 1, 2\<close> where the
  first occurrences are at \<open>0, 2, 4\<close>; on \<open>[0, 1]\<close> it never sees \<open>1\<close>; on a sequence of
  odd length \<open>first\<close> steps over \<open>last\<close> and the loop reads past the end.
\<close>

theorem representative_element_range_skips:
  "representative_element_n [0, 0, 1, 0, 2, 1, 2, 1 :: nat] 8 [] = Some [0, 2, 4] \<and>
   representative_element [0, 0, 1, 0, 2, 1, 2, 1 :: nat] [] = Some [0, 1, 2] \<and>
   representative_element [0, 1 :: nat] [] = Some [0] \<and>
   representative_element [7 :: nat] [] = None"
  by code_simp

subsection \<open>Queries for the lowest common ancestor\<close>






text \<open>
  C1. \<open>lca_query\<close> does not return the lowest common ancestor of every pair. In the
  tree \<open>branch_tree\<close> the tour has 15 entries, \<open>R[3] = 3\<close> and \<open>R[7] = 11\<close>. The range
  \<open>[3, 11]\<close> has nine elements, \<open>k = 3\<close>, and the query reads the cells \<open>(3, 3)\<close> and
  \<open>(3, 6)\<close>, both written by the builder: the windows \<open>[3, 10]\<close> and \<open>[6, 13]\<close>. The
  second one reaches past the range to position 13, where the tour is back at vertex
  \<open>1\<close> at depth 1, and \<open>lca_query(3, 7)\<close> returns \<open>1\<close>; the lowest common ancestor of
  \<open>3\<close> and \<open>7\<close> is \<open>2\<close>. In the spec's scenario tree (nine entries) \<open>lca_query(0, 2)\<close> is
  the query on \<open>[0, 7]\<close> and reads the cell \<open>(3, 2)\<close>, which the builder never wrote: in
  an array that held \<open>99\<close> the query indexes \<open>L\<close> with \<open>99\<close>.
\<close>

theorem lca_query_wrong_ancestor:
  "(case lca_preprocess euler_tour (euler_depth 0) index_preprocess_sparse_table branch_tree
           [] [] Map.empty (replicate 4 (replicate 15 0)) of
      None \<Rightarrow> False
    | Some (E, L, R, M) \<Rightarrow>
        E = [0, 1, 2, 3, 4, 5, 6, 5, 4, 3, 2, 7, 2, 1, 0] \<and>
        L = [0, 1, 2, 3, 4, 5, 6, 5, 4, 3, 2, 3, 2, 1, 0] \<and>
        R 3 = Some 3 \<and> R 7 = Some 11 \<and>
        index_query_cells 3 11 = ((3, 3), (3, 6)) \<and>
        read2 M 3 3 = Some 10 \<and> read2 M 3 6 = Some 13 \<and>
        lca_query index_query_sparse_table 3 7 E L R M = Some 1) \<and>
   lowest_common_ancestor branch_tree 3 7 = Some 2 \<and>
   (case lca_preprocess euler_tour (euler_depth 0) index_preprocess_sparse_table scenario_tree
           [] [] Map.empty (replicate 4 (replicate 9 99)) of
      None \<Rightarrow> False
    | Some (E, L, R, M) \<Rightarrow>
        R 0 = Some 0 \<and> R 2 = Some 7 \<and>
        index_query_cells 0 7 = ((3, 0), (3, 2)) \<and>
        read2 M 3 2 = Some 99 \<and>
        lca_query index_query_sparse_table 0 2 E L R M = None) \<and>
   lowest_common_ancestor scenario_tree 0 2 = Some 0"
  by code_simp

end
